theory Spec2Isabelle
  imports Complex_Main "HOL-Library.AList"
begin

section \<open>Numbers\<close>

text \<open>
  A JavaScript \<open>number\<close>. Finite values are exact rationals (the rounding and the
  overflow of IEEE doubles are not modelled); the results of dividing by zero are kept
  apart as \<open>Infinite\<close> (plus or minus Infinity, the sign is not tracked) and \<open>NaN\<close>,
  so that a zero frame dimension gives a non-finite coordinate as in the source,
  and not the \<open>0\<close> of HOL's division.
\<close>

datatype number = Num rat | Infinite | NaN

fun js_mul :: "number \<Rightarrow> number \<Rightarrow> number" where
  "js_mul (Num a) (Num b) = Num (a * b)"
| "js_mul (Num a) Infinite = (if a = 0 then NaN else Infinite)"
| "js_mul Infinite (Num b) = (if b = 0 then NaN else Infinite)"
| "js_mul Infinite Infinite = Infinite"
| "js_mul NaN _ = NaN"
| "js_mul _ NaN = NaN"

fun js_div :: "number \<Rightarrow> number \<Rightarrow> number" where
  "js_div (Num a) (Num b) =
     (if b \<noteq> 0 then Num (a / b) else if a = 0 then NaN else Infinite)"
| "js_div (Num a) Infinite = Num 0"
| "js_div Infinite (Num b) = Infinite"
| "js_div Infinite Infinite = NaN"
| "js_div NaN _ = NaN"
| "js_div _ NaN = NaN"

text \<open>\<open>Math.round\<close>: the nearest integer, a tie going up.\<close>

fun math_round :: "number \<Rightarrow> number" where
  "math_round (Num a) = Num (of_int \<lfloor>a + 1 / 2\<rfloor>)"
| "math_round Infinite = Infinite"
| "math_round NaN = NaN"

section \<open>Data\<close>

text \<open>What \<open>Dimensions.get('window')\<close> and \<open>PixelRatio.get()\<close> return.\<close>

record device =
  window_width :: number
  window_height :: number
  pixel_ratio :: number

text \<open>The value of a code is a string, or absent.\<close>

datatype js_value = Undefined | Null | Str string

record point =
  point_x :: number
  point_y :: number

record rect =
  rect_x :: number
  rect_y :: number
  rect_width :: number
  rect_height :: number

text \<open>A code as the scanner reports it; the handler reads all three fields.\<close>

record code =
  code_value :: js_value
  code_frame :: rect
  code_corners :: "point list"

record scanner_frame =
  frame_width :: number
  frame_height :: number

text \<open>
  The \<open>corners\<close> object of a box: string keys in insertion order, a second
  assignment to a key replacing its value in place.
\<close>

type_synonym js_object = "(string \<times> number) list"

record box =
  box_x :: number
  box_y :: number
  box_width :: number
  box_height :: number
  box_corners :: js_object

record scanned =
  scanned_value :: js_value
  scanTime :: int

text \<open>
  The state of the component (\<open>isScanning\<close>, \<open>boxes\<close>, \<open>uniqueCodes\<close>,
  \<open>timerRef.current\<close>) together with the timers of the runtime: the handles
  that are pending with the time each is due, and the next handle to hand out.
  \<open>timerRef.current\<close> is \<open>null\<close> or a handle; a handle is truthy (an object by
  the declared type \<open>NodeJS.Timeout\<close>, a positive number in React Native, where
  the first handle is 1).
\<close>

record state =
  isScanning :: bool
  boxes :: "box list"
  uniqueCodes :: "scanned list"
  timerRef :: "nat option"
  pending :: "(nat \<times> int) list"
  nextHandle :: nat

section \<open>Device metrics\<close>

definition screenWidthPixels :: "device \<Rightarrow> number" where
  "screenWidthPixels dev = js_mul (window_width dev) (pixel_ratio dev)"

definition screenHeightPixels :: "device \<Rightarrow> number" where
  "screenHeightPixels dev = js_mul (window_height dev) (pixel_ratio dev)"

definition screenWidthPixelsRounded :: "device \<Rightarrow> number" where
  "screenWidthPixelsRounded dev = math_round (screenWidthPixels dev)"

definition screenHeightPixelsRounded :: "device \<Rightarrow> number" where
  "screenHeightPixelsRounded dev = math_round (screenHeightPixels dev)"

section \<open>Template literals\<close>

text \<open>The decimal digits of a natural number, as \<open>${index + 1}\<close> prints them.\<close>

definition digit :: "nat \<Rightarrow> char" where
  "digit d = ''0123456789'' ! d"

fun toString :: "nat \<Rightarrow> string" where
  "toString n = (if n < 10 then [digit n] else toString (n div 10) @ [digit (n mod 10)])"

declare toString.simps [simp del]

definition point_key :: "nat \<Rightarrow> string \<Rightarrow> string" where
  "point_key index axis = ''point'' @ toString (index + 1) @ axis"

section \<open>The coordinate mapper\<close>

text \<open>The body of the \<open>reduce\<close> callback: two assignments to the accumulator.\<close>

definition corner_step :: "device \<Rightarrow> scanner_frame \<Rightarrow> js_object \<Rightarrow> point \<Rightarrow> nat \<Rightarrow> js_object" where
  "corner_step dev frame acc corner index =
     (let acc1 = AList.update (point_key index ''x'')
                   (js_div (js_mul (point_x corner) (screenWidthPixelsRounded dev)) (frame_height frame))
                   acc;
          acc2 = AList.update (point_key index ''y'')
                   (js_div (js_mul (point_y corner) (screenHeightPixelsRounded dev)) (frame_width frame))
                   acc1
      in acc2)"

text \<open>\<open>Array.prototype.reduce\<close> with the index passed to the callback.\<close>

fun reduce :: "('a \<Rightarrow> 'b \<Rightarrow> nat \<Rightarrow> 'a) \<Rightarrow> 'a \<Rightarrow> nat \<Rightarrow> 'b list \<Rightarrow> 'a" where
  "reduce f acc index [] = acc"
| "reduce f acc index (x # xs) = reduce f (f acc x index) (Suc index) xs"

definition map_code :: "device \<Rightarrow> scanner_frame \<Rightarrow> code \<Rightarrow> box" where
  "map_code dev frame c =
     (let corners = reduce (corner_step dev frame) [] 0 (code_corners c);
          x = js_div (js_mul (rect_x (code_frame c)) (screenWidthPixelsRounded dev)) (frame_height frame);
          y = js_div (js_mul (rect_y (code_frame c)) (screenHeightPixelsRounded dev)) (frame_width frame);
          width = js_div (js_mul (rect_width (code_frame c)) (screenWidthPixelsRounded dev)) (frame_height frame);
          height = js_div (js_mul (rect_height (code_frame c)) (screenHeightPixelsRounded dev)) (frame_width frame)
      in \<lparr> box_x = js_div x (pixel_ratio dev),
           box_y = js_div y (pixel_ratio dev),
           box_width = js_div width (pixel_ratio dev),
           box_height = js_div height (pixel_ratio dev),
           box_corners = corners \<rparr>)"

section \<open>Timers\<close>

definition clearTimeout :: "nat \<Rightarrow> state \<Rightarrow> state" where
  "clearTimeout h s = s\<lparr>pending := filter (\<lambda>p. fst p \<noteq> h) (pending s)\<rparr>"

text \<open>\<open>setTimeout\<close> at the time \<open>now\<close>: a fresh handle, due after the delay.\<close>

definition setTimeout :: "int \<Rightarrow> int \<Rightarrow> state \<Rightarrow> nat \<times> state" where
  "setTimeout now delay s =
     (nextHandle s,
      s\<lparr>pending := pending s @ [(nextHandle s, now + delay)],
        nextHandle := Suc (nextHandle s)\<rparr>)"

text \<open>The callback given to \<open>setTimeout\<close>.\<close>

definition timer_callback :: "state \<Rightarrow> state" where
  "timer_callback s = s\<lparr>boxes := [], uniqueCodes := []\<rparr>"

text \<open>
  The runtime fires a pending timer once it is due: the timer leaves the pending
  ones and its callback runs. A handle that is not pending or not yet due does
  not fire.
\<close>

definition fire :: "nat \<Rightarrow> int \<Rightarrow> state \<Rightarrow> state option" where
  "fire h now s =
     (case map_of (pending s) h of
        None \<Rightarrow> None
      | Some due \<Rightarrow>
          if due \<le> now
          then Some (timer_callback (s\<lparr>pending := filter (\<lambda>p. fst p \<noteq> h) (pending s)\<rparr>))
          else None)"

section \<open>The detection handler\<close>

text \<open>
  \<open>dateNow k\<close> is what the \<open>k\<close>-th call of \<open>Date.now()\<close> in this run of the handler
  returns (the first call is number 0); \<open>now\<close> is the time of the timer runtime.
\<close>

definition onCodeScanned ::
  "device \<Rightarrow> (nat \<Rightarrow> int) \<Rightarrow> int \<Rightarrow> code list \<Rightarrow> scanner_frame \<Rightarrow> state \<Rightarrow> state" where
  "onCodeScanned dev dateNow now codes frame s =
     (if isScanning s then
        let s1 = (case timerRef s of Some h \<Rightarrow> clearTimeout h s | None \<Rightarrow> s)
        in if length codes > 0 then
             let startTime = dateNow 0;
                 newBoxes = map (map_code dev frame) codes;
                 s2 = s1\<lparr>boxes := newBoxes\<rparr>;
                 currentFrameValues =
                   filter (\<lambda>data. scanned_value data \<noteq> Undefined \<and> scanned_value data \<noteq> Null)
                     (map (\<lambda>(i, c). \<lparr> scanned_value = code_value c,
                                      scanTime = dateNow (Suc i) - startTime \<rparr>)
                        (enumerate 0 codes));
                 s3 = s2\<lparr>uniqueCodes := currentFrameValues\<rparr>;
                 (h, s4) = setTimeout now 300 s3
             in s4\<lparr>timerRef := Some h\<rparr>
           else s1\<lparr>boxes := [], uniqueCodes := []\<rparr>
      else s)"

section \<open>The component\<close>

definition initial :: state where
  "initial = \<lparr> isScanning = False, boxes = [], uniqueCodes = [], timerRef = None,
               pending = [], nextHandle = 1 \<rparr>"

text \<open>The one button shown: Stop while scanning, Start otherwise.\<close>

definition press_stop :: "state \<Rightarrow> state" where
  "press_stop s = s\<lparr>isScanning := False\<rparr>"

definition press_start :: "state \<Rightarrow> state" where
  "press_start s = s\<lparr>isScanning := True\<rparr>"

definition press_button :: "state \<Rightarrow> state" where
  "press_button s = (if isScanning s then press_stop s else press_start s)"

text \<open>The cleanup returned by the effect, run when the component is unmounted.\<close>

definition cleanup :: "state \<Rightarrow> state" where
  "cleanup s = (case timerRef s of Some h \<Rightarrow> clearTimeout h s | None \<Rightarrow> s)"

text \<open>The states a session can be in.\<close>

inductive reachable :: "device \<Rightarrow> state \<Rightarrow> bool" for dev :: device where
  r_initial: "reachable dev initial"
| r_frame: "reachable dev s \<Longrightarrow> reachable dev (onCodeScanned dev dateNow now codes frame s)"
| r_press: "reachable dev s \<Longrightarrow> reachable dev (press_button s)"
| r_fire: "reachable dev s \<Longrightarrow> fire h now s = Some s' \<Longrightarrow> reachable dev s'"
| r_cleanup: "reachable dev s \<Longrightarrow> reachable dev (cleanup s)"

section \<open>Concrete inputs\<close>

text \<open>
  A phone of 360 by 800 display-independent units at density 3 (1080 by 2400
  pixels), a portrait frame of the scanner, and a code in it.
\<close>

definition example_device :: device where
  "example_device = \<lparr> window_width = Num 360, window_height = Num 800, pixel_ratio = Num 3 \<rparr>"

definition example_frame :: scanner_frame where
  "example_frame = \<lparr> frame_width = Num 480, frame_height = Num 640 \<rparr>"

definition example_code :: code where
  "example_code =
     \<lparr> code_value = Str ''4006381333931'',
       code_frame = \<lparr> rect_x = Num 100, rect_y = Num 50, rect_width = Num 40, rect_height = Num 20 \<rparr>,
       code_corners = [\<lparr> point_x = Num 100, point_y = Num 50 \<rparr>,
                       \<lparr> point_x = Num 140, point_y = Num 50 \<rparr>,
                       \<lparr> point_x = Num 140, point_y = Num 70 \<rparr>,
                       \<lparr> point_x = Num 100, point_y = Num 70 \<rparr>] \<rparr>"

text \<open>A code that was located but not decoded.\<close>

definition undecoded_code :: code where
  "undecoded_code = example_code \<lparr> code_value := Undefined \<rparr>"

definition example_clock :: "nat \<Rightarrow> int" where
  "example_clock k = 1700000000000 + int k"

section \<open>Auxiliary notions for the proofs\<close>

text \<open>Reading a decimal numeral back, to show that \<open>toString\<close> is injective.\<close>

definition digit_val :: "char \<Rightarrow> nat" where
  "digit_val c = length (takeWhile (\<lambda>d. d \<noteq> c) ''0123456789'')"

definition fromString :: "string \<Rightarrow> nat" where
  "fromString cs = foldl (\<lambda>a c. 10 * a + digit_val c) 0 cs"

text \<open>The two entries that the corner at position \<open>i\<close> contributes.\<close>

definition corner_entries :: "device \<Rightarrow> scanner_frame \<Rightarrow> nat \<Rightarrow> point \<Rightarrow> js_object" where
  "corner_entries dev frame i corner =
     [(point_key i ''x'', js_div (js_mul (point_x corner) (screenWidthPixelsRounded dev)) (frame_height frame)),
      (point_key i ''y'', js_div (js_mul (point_y corner) (screenHeightPixelsRounded dev)) (frame_width frame))]"

text \<open>The keys written by the corners before position \<open>n\<close>.\<close>

definition keys_below :: "nat \<Rightarrow> string set" where
  "keys_below n = {point_key j a | j a. j < n \<and> (a = ''x'' \<or> a = ''y'')}"

text \<open>
  Every pending timer is the one \<open>timerRef.current\<close> holds, there is at most one,
  and its handle has been handed out already.
\<close>

definition timer_inv :: "state \<Rightarrow> bool" where
  "timer_inv s \<longleftrightarrow>
     length (pending s) \<le> 1 \<and>
     (\<forall>p \<in> set (pending s). timerRef s = Some (fst p) \<and> fst p < nextHandle s)"

text \<open>The session after Start and one frame with the example code, at time 0.\<close>

definition scanned_state :: state where
  "scanned_state =
     onCodeScanned example_device example_clock 0 [example_code] example_frame (press_button initial)"

section \<open>Keys of the corners object\<close>

lemma digit_val_digit: "d < 10 \<Longrightarrow> digit_val (digit d) = d"
proof -
  assume "d < 10"
  then have "d \<in> {0,1,2,3,4,5,6,7,8,9}" by auto
  then show ?thesis by (auto simp: digit_val_def digit_def)
qed

lemma fromString_toString: "fromString (toString n) = n"
proof (induction n rule: toString.induct)
  case (1 n)
  show ?case
  proof (cases "n < 10")
    case True
    then show ?thesis
      by (subst toString.simps) (simp add: fromString_def digit_val_digit)
  next
    case False
    with 1 have "fromString (toString (n div 10)) = n div 10" by simp
    with False show ?thesis
      by (subst toString.simps) (simp add: fromString_def digit_val_digit)
  qed
qed

lemma toString_inj: "toString m = toString n \<Longrightarrow> m = n"
  by (metis fromString_toString)

lemma point_key_inj:
  "point_key i a = point_key j b \<Longrightarrow> length a = length b \<Longrightarrow> i = j \<and> a = b"
  by (auto simp: point_key_def dest: toString_inj)

lemma point_key_x_y: "point_key i ''x'' \<noteq> point_key j ''y''"
  by (simp add: point_key_def)

lemma keys_below_fresh: "a = ''x'' \<or> a = ''y'' \<Longrightarrow> point_key n a \<notin> keys_below n"
  by (auto simp: keys_below_def dest: point_key_inj)

lemma keys_below_Suc:
  "keys_below (Suc n) = keys_below n \<union> {point_key n ''x'', point_key n ''y''}"
  by (auto simp: keys_below_def less_Suc_eq)

section \<open>The corners object, entry by entry\<close>

lemma update_fresh: "k \<notin> fst ` set al \<Longrightarrow> AList.update k v al = al @ [(k, v)]"
  by (induction al) auto

lemma corner_step_fresh:
  assumes "fst ` set acc \<subseteq> keys_below i"
  shows "corner_step dev frame acc corner i = acc @ corner_entries dev frame i corner"
proof -
  have x: "point_key i ''x'' \<notin> fst ` set acc"
    using assms keys_below_fresh [of "''x''" i] by auto
  have y: "point_key i ''y'' \<notin> fst ` set acc"
    using assms keys_below_fresh [of "''y''" i] by auto
  have y': "point_key i ''y'' \<notin> fst ` set (acc @ [(point_key i ''x'', v)])" for v
    using y point_key_x_y [of i i] by auto
  show ?thesis
    by (simp add: corner_step_def Let_def update_fresh [OF x] update_fresh [OF y'] corner_entries_def)
qed

lemma reduce_corners:
  "fst ` set acc \<subseteq> keys_below i \<Longrightarrow>
   reduce (corner_step dev frame) acc i cs =
     acc @ concat (map (\<lambda>(j, corner). corner_entries dev frame j corner) (enumerate i cs))"
proof (induction cs arbitrary: acc i)
  case Nil
  then show ?case by simp
next
  case (Cons c cs)
  have step: "corner_step dev frame acc c i = acc @ corner_entries dev frame i c"
    using Cons.prems by (rule corner_step_fresh)
  have "fst ` set (acc @ corner_entries dev frame i c) \<subseteq> keys_below (Suc i)"
    using Cons.prems by (auto simp: keys_below_Suc corner_entries_def)
  from Cons.IH [OF this] show ?case
    by (simp add: step)
qed

lemma map_code_corners:
  "box_corners (map_code dev frame c) =
     concat (map (\<lambda>(j, corner). corner_entries dev frame j corner) (enumerate 0 (code_corners c)))"
  using reduce_corners [of "[]" 0 dev frame "code_corners c"]
  by (simp add: map_code_def Let_def keys_below_def)

lemma lookup_entries:
  "i < length cs \<Longrightarrow>
   map_of (concat (map (\<lambda>(j, corner). corner_entries dev frame j corner) (enumerate n cs)))
     (point_key (n + i) ''x'') =
     Some (js_div (js_mul (point_x (cs ! i)) (screenWidthPixelsRounded dev)) (frame_height frame)) \<and>
   map_of (concat (map (\<lambda>(j, corner). corner_entries dev frame j corner) (enumerate n cs)))
     (point_key (n + i) ''y'') =
     Some (js_div (js_mul (point_y (cs ! i)) (screenHeightPixelsRounded dev)) (frame_width frame))"
proof (induction cs arbitrary: n i)
  case Nil
  then show ?case by simp
next
  case (Cons c cs)
  show ?case
  proof (cases i)
    case 0
    then show ?thesis
      using point_key_x_y [of n n] by (auto simp: corner_entries_def)
  next
    case (Suc k)
    then have k: "k < length cs" using Cons.prems by simp
    have ne: "point_key (n + Suc k) a \<noteq> point_key n b" if "length a = length b" for a b
      using point_key_inj [of "n + Suc k" a n b] that by auto
    from Cons.IH [OF k, of "Suc n"] show ?thesis
      using Suc ne [of "''x''" "''x''"] ne [of "''x''" "''y''"] ne [of "''y''" "''x''"] ne [of "''y''" "''y''"]
      by (simp add: corner_entries_def)
  qed
qed

section \<open>What an accepted frame leaves in the state\<close>

lemma onCodeScanned_boxes:
  "isScanning s \<Longrightarrow> codes \<noteq> [] \<Longrightarrow>
   boxes (onCodeScanned dev dateNow now codes frame s) = map (map_code dev frame) codes"
  by (simp add: onCodeScanned_def Let_def setTimeout_def clearTimeout_def split: option.splits)

lemma onCodeScanned_uniqueCodes:
  "isScanning s \<Longrightarrow> codes \<noteq> [] \<Longrightarrow>
   uniqueCodes (onCodeScanned dev dateNow now codes frame s) =
     filter (\<lambda>data. scanned_value data \<noteq> Undefined \<and> scanned_value data \<noteq> Null)
       (map (\<lambda>(i, c). \<lparr> scanned_value = code_value c, scanTime = dateNow (Suc i) - dateNow 0 \<rparr>)
          (enumerate 0 codes))"
  by (simp add: onCodeScanned_def Let_def setTimeout_def clearTimeout_def split: option.splits)

lemma example_metrics:
  "screenWidthPixelsRounded example_device = Num 1080"
  "screenHeightPixelsRounded example_device = Num 2400"
  by (simp_all add: example_device_def screenWidthPixelsRounded_def screenHeightPixelsRounded_def
      screenWidthPixels_def screenHeightPixels_def floor_eq_iff)

lemma started: "isScanning (press_button initial)"
  by (simp add: press_button_def press_start_def initial_def)

section \<open>The rectangle of a box\<close>

text \<open>
  C2. For the code at any position of a frame handled while scanning, the box at that
  position has \<open>x\<close> and \<open>width\<close> scaled by \<open>screenWidthPixelsRounded / frame.height\<close>,
  \<open>y\<close> and \<open>height\<close> scaled by \<open>screenHeightPixelsRounded / frame.width\<close>, and all
  four then divided by \<open>pixelRatio\<close>. With a frame of 480 by 640, metrics 1080, 2400
  and 3, and the rectangle 100, 50, 40, 20, the box is 56.25, 83.33..., 22.5, 33.33...
  (225/4, 250/3, 45/2, 100/3).
\<close>

theorem box_rect_mapping:
  assumes "isScanning s" and "k < length codes"
  shows "(let b = boxes (onCodeScanned dev dateNow now codes frame s) ! k;
              r = code_frame (codes ! k)
          in box_x b = js_div (js_div (js_mul (rect_x r) (screenWidthPixelsRounded dev)) (frame_height frame)) (pixel_ratio dev)
           \<and> box_y b = js_div (js_div (js_mul (rect_y r) (screenHeightPixelsRounded dev)) (frame_width frame)) (pixel_ratio dev)
           \<and> box_width b = js_div (js_div (js_mul (rect_width r) (screenWidthPixelsRounded dev)) (frame_height frame)) (pixel_ratio dev)
           \<and> box_height b = js_div (js_div (js_mul (rect_height r) (screenHeightPixelsRounded dev)) (frame_width frame)) (pixel_ratio dev)
           \<and> (screenWidthPixelsRounded dev = Num 1080 \<and> screenHeightPixelsRounded dev = Num 2400
                \<and> pixel_ratio dev = Num 3
                \<and> frame = \<lparr> frame_width = Num 480, frame_height = Num 640 \<rparr>
                \<and> r = \<lparr> rect_x = Num 100, rect_y = Num 50, rect_width = Num 40, rect_height = Num 20 \<rparr>
              \<longrightarrow> box_x b = Num (225 / 4) \<and> box_y b = Num (250 / 3)
                \<and> box_width b = Num (45 / 2) \<and> box_height b = Num (100 / 3)))"
proof -
  from assms have "codes \<noteq> []" by auto
  with assms have "boxes (onCodeScanned dev dateNow now codes frame s) ! k = map_code dev frame (codes ! k)"
    by (simp add: onCodeScanned_boxes)
  then show ?thesis
    by (auto simp: Let_def map_code_def)
qed

theorem box_rect_mapping_witness:
  "isScanning (press_button initial) \<and> 0 < length [example_code]
   \<and> (let b = boxes (onCodeScanned example_device example_clock 0 [example_code] example_frame
                       (press_button initial)) ! 0
      in box_x b = Num (225 / 4) \<and> box_y b = Num (250 / 3)
       \<and> box_width b = Num (45 / 2) \<and> box_height b = Num (100 / 3))"
  using box_rect_mapping [of "press_button initial" 0 "[example_code]" example_device
      example_clock 0 example_frame]
  by (simp add: started example_metrics Let_def)
    (simp add: example_device_def example_frame_def example_code_def)

section \<open>The corners of a box\<close>

text \<open>
  C3. For the code at any position of a frame handled while scanning, the \<open>corners\<close>
  object of its box holds, for each corner in the order of the input and counted
  from 1, the key \<open>point{i}x\<close> with \<open>corner.x * screenWidthPixelsRounded / frame.height\<close>
  and the key \<open>point{i}y\<close> with \<open>corner.y * screenHeightPixelsRounded / frame.width\<close>,
  neither divided by \<open>pixelRatio\<close>; it has one pair of keys per corner, however many
  corners there are, and looking a key up gives the value of its corner.
\<close>

theorem corners_mapping:
  assumes "isScanning s" and "k < length codes"
  shows "(let b = boxes (onCodeScanned dev dateNow now codes frame s) ! k;
              cs = code_corners (codes ! k)
          in box_corners b =
               concat (map (\<lambda>(i, corner).
                  [(''point'' @ toString (i + 1) @ ''x'',
                    js_div (js_mul (point_x corner) (screenWidthPixelsRounded dev)) (frame_height frame)),
                   (''point'' @ toString (i + 1) @ ''y'',
                    js_div (js_mul (point_y corner) (screenHeightPixelsRounded dev)) (frame_width frame))])
                 (enumerate 0 cs))
           \<and> length (box_corners b) = 2 * length cs
           \<and> (\<forall>i < length cs.
                 map_of (box_corners b) (''point'' @ toString (i + 1) @ ''x'') =
                   Some (js_div (js_mul (point_x (cs ! i)) (screenWidthPixelsRounded dev)) (frame_height frame))
               \<and> map_of (box_corners b) (''point'' @ toString (i + 1) @ ''y'') =
                   Some (js_div (js_mul (point_y (cs ! i)) (screenHeightPixelsRounded dev)) (frame_width frame))))"
proof -
  let ?b = "boxes (onCodeScanned dev dateNow now codes frame s) ! k"
  let ?cs = "code_corners (codes ! k)"
  let ?entries = "concat (map (\<lambda>(j, corner). corner_entries dev frame j corner) (enumerate 0 ?cs))"
  from assms have "codes \<noteq> []" by auto
  with assms have b: "?b = map_code dev frame (codes ! k)"
    by (simp add: onCodeScanned_boxes)
  have eq: "box_corners ?b = ?entries"
    by (simp add: b map_code_corners)
  have shape: "?entries = concat (map (\<lambda>(i, corner).
                  [(''point'' @ toString (i + 1) @ ''x'',
                    js_div (js_mul (point_x corner) (screenWidthPixelsRounded dev)) (frame_height frame)),
                   (''point'' @ toString (i + 1) @ ''y'',
                    js_div (js_mul (point_y corner) (screenHeightPixelsRounded dev)) (frame_width frame))])
                 (enumerate 0 ?cs))"
    by (simp add: corner_entries_def point_key_def)
  have len: "length (concat (map (\<lambda>(j, corner). corner_entries dev frame j corner) (enumerate n xs))) = 2 * length xs"
    for n xs
    by (induction xs arbitrary: n) (simp_all add: corner_entries_def)
  have look: "\<forall>i < length ?cs.
      map_of ?entries (''point'' @ toString (i + 1) @ ''x'') =
        Some (js_div (js_mul (point_x (?cs ! i)) (screenWidthPixelsRounded dev)) (frame_height frame))
    \<and> map_of ?entries (''point'' @ toString (i + 1) @ ''y'') =
        Some (js_div (js_mul (point_y (?cs ! i)) (screenHeightPixelsRounded dev)) (frame_width frame))"
    using lookup_entries [of _ ?cs dev frame 0] by (simp add: point_key_def)
  show ?thesis
    unfolding Let_def eq using shape len [of 0 ?cs] look by simp
qed

theorem corners_mapping_witness:
  "isScanning (press_button initial) \<and> 0 < length [example_code]
   \<and> box_corners (boxes (onCodeScanned example_device example_clock 0 [example_code] example_frame
                       (press_button initial)) ! 0) =
       [(''point1x'', Num (675 / 4)), (''point1y'', Num 250),
        (''point2x'', Num (945 / 4)), (''point2y'', Num 250),
        (''point3x'', Num (945 / 4)), (''point3y'', Num 350),
        (''point4x'', Num (675 / 4)), (''point4y'', Num 350)]"
  using corners_mapping [of "press_button initial" 0 "[example_code]" example_device
      example_clock 0 example_frame]
  by (simp add: started example_metrics Let_def)
    (simp add: example_code_def example_frame_def toString.simps digit_def)

section \<open>The two lists of a frame\<close>

lemma length_filter_map_enumerate:
  "length (filter (\<lambda>d. P (scanned_value d))
       (map (\<lambda>(i, c). \<lparr> scanned_value = code_value c, scanTime = f i \<rparr>) (enumerate n codes))) =
   length (filter (\<lambda>c. P (code_value c)) codes)"
  by (induction codes arbitrary: n) simp_all

lemma values_filter_map_enumerate:
  "map scanned_value (filter (\<lambda>d. P (scanned_value d))
       (map (\<lambda>(i, c). \<lparr> scanned_value = code_value c, scanTime = f i \<rparr>) (enumerate n codes))) =
   filter P (map code_value codes)"
  by (induction codes arbitrary: n) simp_all

text \<open>
  C4. A frame of \<open>n > 0\<close> codes handled while scanning leaves exactly \<open>n\<close> boxes, and
  as many entries in \<open>uniqueCodes\<close> as there are codes whose value is neither
  undefined nor null, hence at most \<open>n\<close>; the two lengths can differ: a single code
  without a value gives one box and no entry.
\<close>

theorem frame_lengths:
  assumes "isScanning s" and "codes \<noteq> []"
  shows "length (boxes (onCodeScanned dev dateNow now codes frame s)) = length codes
       \<and> length (uniqueCodes (onCodeScanned dev dateNow now codes frame s)) =
           length (filter (\<lambda>c. code_value c \<noteq> Undefined \<and> code_value c \<noteq> Null) codes)
       \<and> length (uniqueCodes (onCodeScanned dev dateNow now codes frame s)) \<le> length codes
       \<and> (\<forall>c. code_value c = Undefined \<or> code_value c = Null \<longrightarrow>
             length (boxes (onCodeScanned dev dateNow now [c] frame s)) = 1
           \<and> length (uniqueCodes (onCodeScanned dev dateNow now [c] frame s)) = 0)"
proof -
  have u: "length (uniqueCodes (onCodeScanned dev dateNow now cs frame s)) =
           length (filter (\<lambda>c. code_value c \<noteq> Undefined \<and> code_value c \<noteq> Null) cs)"
    if "cs \<noteq> []" for cs
    unfolding onCodeScanned_uniqueCodes [OF assms(1) that]
    by (rule length_filter_map_enumerate [of "\<lambda>v. v \<noteq> Undefined \<and> v \<noteq> Null"])
  have b: "length (boxes (onCodeScanned dev dateNow now cs frame s)) = length cs"
    if "cs \<noteq> []" for cs
    using assms(1) that by (simp add: onCodeScanned_boxes)
  show ?thesis
    using u [OF assms(2)] b [OF assms(2)] u [of "[c]" for c] b [of "[c]" for c]
    by auto
qed

theorem frame_lengths_witness:
  "isScanning (press_button initial) \<and> [example_code, undecoded_code] \<noteq> []
   \<and> length (boxes (onCodeScanned example_device example_clock 0 [example_code, undecoded_code]
         example_frame (press_button initial))) = 2
   \<and> length (uniqueCodes (onCodeScanned example_device example_clock 0 [example_code, undecoded_code]
         example_frame (press_button initial))) = 1"
  using frame_lengths [of "press_button initial" "[example_code, undecoded_code]" example_device
      example_clock 0 example_frame]
  by (simp add: started example_code_def undecoded_code_def)

text \<open>
  C5. After a frame with codes handled while scanning, \<open>uniqueCodes\<close> is the list of
  codes mapped to their value and the time elapsed since the start of the handler,
  filtered to the values that are neither undefined nor null, in the order of the
  input. Equal values are kept: two codes with the same value give two entries.
\<close>

theorem uniqueCodes_snapshot:
  assumes "isScanning s" and "codes \<noteq> []"
  shows "uniqueCodes (onCodeScanned dev dateNow now codes frame s) =
           filter (\<lambda>data. scanned_value data \<noteq> Undefined \<and> scanned_value data \<noteq> Null)
             (map (\<lambda>(i, c). \<lparr> scanned_value = code_value c, scanTime = dateNow (Suc i) - dateNow 0 \<rparr>)
                (enumerate 0 codes))
       \<and> map scanned_value (uniqueCodes (onCodeScanned dev dateNow now codes frame s)) =
           filter (\<lambda>v. v \<noteq> Undefined \<and> v \<noteq> Null) (map code_value codes)
       \<and> (\<forall>c1 c2 v. code_value c1 = Str v \<and> code_value c2 = Str v \<longrightarrow>
             uniqueCodes (onCodeScanned dev dateNow now [c1, c2] frame s) =
               [\<lparr> scanned_value = Str v, scanTime = dateNow 1 - dateNow 0 \<rparr>,
                \<lparr> scanned_value = Str v, scanTime = dateNow 2 - dateNow 0 \<rparr>])"
proof -
  have u: "uniqueCodes (onCodeScanned dev dateNow now cs frame s) =
           filter (\<lambda>data. scanned_value data \<noteq> Undefined \<and> scanned_value data \<noteq> Null)
             (map (\<lambda>(i, c). \<lparr> scanned_value = code_value c, scanTime = dateNow (Suc i) - dateNow 0 \<rparr>)
                (enumerate 0 cs))"
    if "cs \<noteq> []" for cs
    using assms(1) that by (rule onCodeScanned_uniqueCodes)
  have v: "map scanned_value (uniqueCodes (onCodeScanned dev dateNow now codes frame s)) =
           filter (\<lambda>v. v \<noteq> Undefined \<and> v \<noteq> Null) (map code_value codes)"
    unfolding u [OF assms(2)]
    by (rule values_filter_map_enumerate [of "\<lambda>v. v \<noteq> Undefined \<and> v \<noteq> Null"])
  have d: "uniqueCodes (onCodeScanned dev dateNow now [c1, c2] frame s) =
               [\<lparr> scanned_value = Str v, scanTime = dateNow 1 - dateNow 0 \<rparr>,
                \<lparr> scanned_value = Str v, scanTime = dateNow 2 - dateNow 0 \<rparr>]"
    if "code_value c1 = Str v" "code_value c2 = Str v" for c1 c2 v
    using that by (simp add: u [of "[c1, c2]"] numeral_2_eq_2)
  show ?thesis
    using u [OF assms(2)] v d by blast
qed

theorem uniqueCodes_snapshot_witness:
  "isScanning (press_button initial) \<and> [example_code, undecoded_code, example_code] \<noteq> []
   \<and> uniqueCodes (onCodeScanned example_device example_clock 0
        [example_code, undecoded_code, example_code] example_frame (press_button initial)) =
       [\<lparr> scanned_value = Str ''4006381333931'', scanTime = 1 \<rparr>,
        \<lparr> scanned_value = Str ''4006381333931'', scanTime = 3 \<rparr>]"
  using uniqueCodes_snapshot [of "press_button initial" "[example_code, undecoded_code, example_code]"
      example_device example_clock 0 example_frame]
  by (simp add: started example_code_def undecoded_code_def example_clock_def)

section \<open>Determinism of the boxes\<close>

text \<open>
  C10. For a fixed device, the boxes computed by the handler while scanning depend on
  the codes and the frame only: two runs on the same codes and frame give the same
  boxes, corners included, whatever the state before, the clock and the time. So do
  the values listed in \<open>uniqueCodes\<close>; only \<open>scanTime\<close> reads the clock.
\<close>

theorem boxes_deterministic:
  assumes "isScanning s" and "isScanning s'"
  shows "boxes (onCodeScanned dev dateNow now codes frame s) =
           boxes (onCodeScanned dev dateNow' now' codes frame s')
       \<and> map box_corners (boxes (onCodeScanned dev dateNow now codes frame s)) =
           map box_corners (boxes (onCodeScanned dev dateNow' now' codes frame s'))
       \<and> map scanned_value (uniqueCodes (onCodeScanned dev dateNow now codes frame s)) =
           map scanned_value (uniqueCodes (onCodeScanned dev dateNow' now' codes frame s'))"
proof (cases "codes = []")
  case True
  with assms show ?thesis
    by (simp add: onCodeScanned_def clearTimeout_def split: option.splits)
next
  case False
  with assms show ?thesis
    by (simp add: onCodeScanned_boxes onCodeScanned_uniqueCodes
        values_filter_map_enumerate [of "\<lambda>v. v \<noteq> Undefined \<and> v \<noteq> Null"])
qed

theorem boxes_deterministic_witness:
  "isScanning (press_button initial)
   \<and> isScanning (onCodeScanned example_device example_clock 0 [undecoded_code] example_frame
        (press_button initial))
   \<and> boxes (onCodeScanned example_device example_clock 0 [example_code] example_frame
        (press_button initial)) =
     boxes (onCodeScanned example_device (\<lambda>k. 5 * int k) 1000 [example_code] example_frame
        (onCodeScanned example_device example_clock 0 [undecoded_code] example_frame
           (press_button initial)))"
  using boxes_deterministic [of "press_button initial"
      "onCodeScanned example_device example_clock 0 [undecoded_code] example_frame (press_button initial)"
      example_device example_clock 0 "[example_code]" example_frame "\<lambda>k. 5 * int k" 1000]
  by (simp add: started)
    (simp add: onCodeScanned_def Let_def setTimeout_def clearTimeout_def started split: option.splits)

section \<open>Idle frames\<close>

text \<open>
  C7. A detection frame delivered while \<open>isScanning\<close> is false changes nothing:
  \<open>boxes\<close> and \<open>uniqueCodes\<close> stay as they are, and no timer is scheduled or
  cancelled (the whole state, the pending timers included, is the one before).
\<close>

theorem idle_frame_ignored:
  "\<not> isScanning s \<Longrightarrow> onCodeScanned dev dateNow now codes frame s = s"
  by (simp add: onCodeScanned_def)

theorem idle_frame_ignored_witness:
  "\<not> isScanning initial
   \<and> onCodeScanned example_device example_clock 0 [example_code] example_frame initial = initial"
  using idle_frame_ignored [of initial example_device example_clock 0 "[example_code]" example_frame]
  by (simp add: initial_def)

section \<open>The pending timer\<close>

lemma inv_initial: "timer_inv initial"
  by (simp add: timer_inv_def initial_def)

lemma cancel_pending:
  assumes "timer_inv s"
  shows "pending (case timerRef s of Some h \<Rightarrow> clearTimeout h s | None \<Rightarrow> s) = []"
proof (cases "timerRef s")
  case None
  with assms have "pending s = []"
    unfolding timer_inv_def by (cases "pending s") auto
  with None show ?thesis by simp
next
  case (Some h)
  with assms have "\<forall>p \<in> set (pending s). fst p = h" by (auto simp: timer_inv_def)
  then have "filter (\<lambda>p. fst p \<noteq> h) (pending s) = []" by (simp add: filter_empty_conv)
  with Some show ?thesis by (simp add: clearTimeout_def)
qed

lemma frame_pending:
  assumes "timer_inv s" and "isScanning s"
  shows "pending (onCodeScanned dev dateNow now codes frame s) =
           (if codes = [] then [] else [(nextHandle s, now + 300)])"
    and "timerRef (onCodeScanned dev dateNow now codes frame s) =
           (if codes = [] then timerRef s else Some (nextHandle s))"
    and "nextHandle (onCodeScanned dev dateNow now codes frame s) =
           (if codes = [] then nextHandle s else Suc (nextHandle s))"
  using cancel_pending [OF assms(1)] assms(2)
  by (auto simp: onCodeScanned_def Let_def setTimeout_def clearTimeout_def split: option.splits)

lemma inv_frame: "timer_inv s \<Longrightarrow> timer_inv (onCodeScanned dev dateNow now codes frame s)"
proof (cases "isScanning s")
  case True
  assume "timer_inv s"
  from frame_pending [OF this True, of dev dateNow now codes frame] show ?thesis
    by (simp add: timer_inv_def)
next
  case False
  assume "timer_inv s"
  with False show ?thesis by (simp add: onCodeScanned_def)
qed

lemma inv_press: "timer_inv s \<Longrightarrow> timer_inv (press_button s)"
  by (simp add: timer_inv_def press_button_def press_stop_def press_start_def)

lemma fire_state:
  "fire h now s = Some s' \<Longrightarrow>
   s' = s\<lparr>pending := filter (\<lambda>p. fst p \<noteq> h) (pending s), boxes := [], uniqueCodes := []\<rparr>"
  by (simp add: fire_def timer_callback_def split: option.splits if_splits)

lemma inv_fire:
  assumes "timer_inv s" and "fire h now s = Some s'"
  shows "timer_inv s'"
proof -
  from assms(1) have "length (pending s) \<le> 1"
    by (simp add: timer_inv_def)
  then have "length (filter (\<lambda>p. fst p \<noteq> h) (pending s)) \<le> 1"
    by (rule le_trans [OF length_filter_le])
  with assms(1) show ?thesis
    unfolding fire_state [OF assms(2)] by (simp add: timer_inv_def)
qed

lemma cleanup_pending: "timer_inv s \<Longrightarrow> pending (cleanup s) = []"
  unfolding cleanup_def by (rule cancel_pending)

lemma inv_cleanup: "timer_inv s \<Longrightarrow> timer_inv (cleanup s)"
  using cleanup_pending [of s] by (simp add: timer_inv_def)

lemma reachable_inv: "reachable dev s \<Longrightarrow> timer_inv s"
  by (induction rule: reachable.induct)
    (auto intro: inv_initial inv_frame inv_press inv_fire inv_cleanup)

lemma reachable_started: "reachable dev (press_button initial)"
  by (intro r_press r_initial)

lemma reachable_scanned: "reachable example_device scanned_state"
  unfolding scanned_state_def by (intro r_frame r_press r_initial)

lemma scanned_state_eq:
  "scanned_state =
     \<lparr> isScanning = True,
       boxes = [map_code example_device example_frame example_code],
       uniqueCodes = [\<lparr> scanned_value = Str ''4006381333931'', scanTime = 1 \<rparr>],
       timerRef = Some 1, pending = [(1, 300)], nextHandle = 2 \<rparr>"
  by (simp add: scanned_state_def onCodeScanned_def press_button_def press_start_def initial_def
      Let_def setTimeout_def example_clock_def example_code_def)

lemma scanned_fields:
  "isScanning scanned_state"
  "boxes scanned_state = [map_code example_device example_frame example_code]"
  "uniqueCodes scanned_state = [\<lparr> scanned_value = Str ''4006381333931'', scanTime = 1 \<rparr>]"
  "timerRef scanned_state = Some 1"
  "pending scanned_state = [(1, 300)]"
  "nextHandle scanned_state = 2"
  by (simp_all add: scanned_state_eq)

lemma press_iter: "\<exists>b. (press_button ^^ n) s = s\<lparr>isScanning := b\<rparr>"
proof (induction n)
  case 0
  have "s = s\<lparr>isScanning := isScanning s\<rparr>" by simp
  then show ?case by (metis funpow_0)
next
  case (Suc n)
  then obtain b where "(press_button ^^ n) s = s\<lparr>isScanning := b\<rparr>" ..
  then have "(press_button ^^ Suc n) s = s\<lparr>isScanning := \<not> b\<rparr>"
    by (simp add: press_button_def press_stop_def press_start_def)
  then show ?case ..
qed

lemma inv_isScanning: "timer_inv (s\<lparr>isScanning := b\<rparr>) = timer_inv s"
  by (simp add: timer_inv_def)

lemma fire_not_pending:
  assumes "h \<notin> fst ` set (pending s)"
  shows "fire h t s = None"
proof -
  from assms have "map_of (pending s) h = None"
    by (simp add: map_of_eq_None_iff)
  then show ?thesis by (simp add: fire_def)
qed

lemma fire_single:
  "pending s = [(h, due)] \<Longrightarrow>
   fire h' t s =
     (if h' = h \<and> due \<le> t then Some (s\<lparr>pending := [], boxes := [], uniqueCodes := []\<rparr>) else None)"
  by (simp add: fire_def timer_callback_def)

lemma next_started: "nextHandle (press_button initial) = 1"
  by (simp add: press_button_def press_start_def initial_def)

section \<open>Stop\<close>

text \<open>
  C1, as the code has it. Pressing Stop while scanning sets \<open>isScanning\<close> to false
  and nothing else: \<open>boxes\<close> and \<open>uniqueCodes\<close> keep their contents, and a pending
  clear timer stays pending. (The handler that also emptied the two lists is the
  one commented out in the source.) After Start and a frame with one code, Stop
  leaves one box and one entry.
\<close>

theorem stop_keeps_lists:
  assumes "isScanning s"
  shows "\<not> isScanning (press_button s)
       \<and> boxes (press_button s) = boxes s
       \<and> uniqueCodes (press_button s) = uniqueCodes s
       \<and> pending (press_button s) = pending s
       \<and> timerRef (press_button s) = timerRef s"
  using assms by (simp add: press_button_def press_stop_def)

theorem stop_keeps_lists_witness:
  "isScanning scanned_state
   \<and> \<not> isScanning (press_button scanned_state)
   \<and> boxes (press_button scanned_state) = [map_code example_device example_frame example_code]
   \<and> uniqueCodes (press_button scanned_state) =
       [\<lparr> scanned_value = Str ''4006381333931'', scanTime = 1 \<rparr>]
   \<and> pending (press_button scanned_state) = [(1, 300)]"
  using stop_keeps_lists [of scanned_state]
  by (simp add: scanned_fields)

text \<open>
  The claim as the specification words it, with both lists emptied at once, fails in
  that state.
\<close>

theorem stop_clears_counterexample:
  "isScanning scanned_state
   \<and> \<not> (\<not> isScanning (press_button scanned_state)
        \<and> boxes (press_button scanned_state) = []
        \<and> uniqueCodes (press_button scanned_state) = []
        \<and> pending (press_button scanned_state) = pending scanned_state)"
  by (simp add: scanned_fields press_button_def press_stop_def)

section \<open>Empty frames\<close>

text \<open>
  C6. A frame without codes handled while scanning leaves \<open>boxes\<close> and \<open>uniqueCodes\<close>
  empty, whatever the state before. The timer that \<open>timerRef.current\<close> holds is
  cancelled and none is scheduled: no handle is handed out and no timer is pending
  that was not pending before. In every state the session can reach, the pending
  timer is the one \<open>timerRef.current\<close> holds, so no timer is pending afterwards.
\<close>

theorem empty_frame_clears:
  assumes "isScanning s"
  shows "boxes (onCodeScanned dev dateNow now [] frame s) = []
       \<and> uniqueCodes (onCodeScanned dev dateNow now [] frame s) = []
       \<and> nextHandle (onCodeScanned dev dateNow now [] frame s) = nextHandle s
       \<and> set (pending (onCodeScanned dev dateNow now [] frame s)) \<subseteq> set (pending s)
       \<and> (\<forall>h. timerRef s = Some h \<longrightarrow>
             h \<notin> fst ` set (pending (onCodeScanned dev dateNow now [] frame s)))
       \<and> (reachable dev s \<longrightarrow> pending (onCodeScanned dev dateNow now [] frame s) = [])"
proof -
  let ?s' = "onCodeScanned dev dateNow now [] frame s"
  have lists: "boxes ?s' = [] \<and> uniqueCodes ?s' = [] \<and> nextHandle ?s' = nextHandle s"
    using assms by (simp add: onCodeScanned_def clearTimeout_def split: option.splits)
  have p: "pending ?s' =
      (case timerRef s of Some h \<Rightarrow> filter (\<lambda>p. fst p \<noteq> h) (pending s) | None \<Rightarrow> pending s)"
    using assms by (simp add: onCodeScanned_def clearTimeout_def split: option.splits)
  have sub: "set (pending ?s') \<subseteq> set (pending s)"
    unfolding p by (auto split: option.splits)
  have gone: "\<forall>h. timerRef s = Some h \<longrightarrow> h \<notin> fst ` set (pending ?s')"
    unfolding p by auto
  have none: "reachable dev s \<longrightarrow> pending ?s' = []"
  proof
    assume "reachable dev s"
    then have "timer_inv s" by (rule reachable_inv)
    from frame_pending(1) [OF this assms, of dev dateNow now "[]" frame]
    show "pending ?s' = []" by simp
  qed
  show ?thesis
    by (intro conjI lists [THEN conjunct1] lists [THEN conjunct2, THEN conjunct1]
        lists [THEN conjunct2, THEN conjunct2] sub gone none)
qed

theorem empty_frame_clears_witness:
  "isScanning scanned_state \<and> reachable example_device scanned_state
   \<and> boxes scanned_state = [map_code example_device example_frame example_code]
   \<and> boxes scanned_state \<noteq> []
   \<and> uniqueCodes scanned_state = [\<lparr> scanned_value = Str ''4006381333931'', scanTime = 1 \<rparr>]
   \<and> uniqueCodes scanned_state \<noteq> []
   \<and> timerRef scanned_state = Some 1
   \<and> pending scanned_state = [(1, 300)]
   \<and> boxes (onCodeScanned example_device example_clock 100 [] example_frame scanned_state) = []
   \<and> uniqueCodes (onCodeScanned example_device example_clock 100 [] example_frame scanned_state) = []
   \<and> pending (onCodeScanned example_device example_clock 100 [] example_frame scanned_state) = []
   \<and> nextHandle (onCodeScanned example_device example_clock 100 [] example_frame scanned_state) = 2"
  using empty_frame_clears [OF scanned_fields(1), of example_device example_clock 100 example_frame]
  by (simp add: reachable_scanned scanned_fields)

section \<open>At most one timer\<close>

text \<open>
  C8. In every state the session can reach at most one timer is pending. A frame
  handled while scanning cancels every timer pending before it and leaves none
  (no codes) or exactly the one it schedules; the cleanup of the component leaves
  none.
\<close>

theorem at_most_one_timer:
  assumes "reachable dev s"
  shows "length (pending s) \<le> 1
       \<and> (isScanning s \<longrightarrow>
            pending (onCodeScanned dev dateNow now codes frame s) =
              (if codes = [] then [] else [(nextHandle s, now + 300)])
          \<and> (\<forall>p \<in> set (pending s).
                fst p \<notin> fst ` set (pending (onCodeScanned dev dateNow now codes frame s))))
       \<and> pending (cleanup s) = []"
proof -
  have inv: "timer_inv s" using assms by (rule reachable_inv)
  then have one: "length (pending s) \<le> 1" by (simp add: timer_inv_def)
  have old: "\<forall>p \<in> set (pending s). fst p \<noteq> nextHandle s"
    using inv by (auto simp: timer_inv_def)
  have frame: "pending (onCodeScanned dev dateNow now codes frame s) =
              (if codes = [] then [] else [(nextHandle s, now + 300)])
          \<and> (\<forall>p \<in> set (pending s).
                fst p \<notin> fst ` set (pending (onCodeScanned dev dateNow now codes frame s)))"
    if "isScanning s"
    using frame_pending(1) [OF inv that, of dev dateNow now codes frame] old by simp
  show ?thesis
    using one frame cleanup_pending [OF inv] by blast
qed

theorem at_most_one_timer_witness:
  "reachable example_device scanned_state
   \<and> length (pending scanned_state) = 1
   \<and> isScanning scanned_state
   \<and> pending (onCodeScanned example_device example_clock 100 [example_code] example_frame
        scanned_state) = [(2, 400)]
   \<and> pending (cleanup scanned_state) = []"
  using at_most_one_timer [OF reachable_scanned, of example_clock 100 "[example_code]" example_frame]
  by (simp add: reachable_scanned scanned_fields)

section \<open>Debounce\<close>

text \<open>
  C9. A frame with codes handled while scanning, at time \<open>now\<close>, leaves exactly one
  pending timer, due at \<open>now + 300\<close>. From then on, whatever the button does:
  the boxes and entries of the frame stay, and no timer can fire before
  \<open>now + 300\<close>; the next frame handled while scanning cancels the timer, which can
  then never fire, and a next frame with codes leaves boxes again; and from
  \<open>now + 300\<close> on, if no frame came, the timer fires, empties \<open>boxes\<close> and
  \<open>uniqueCodes\<close> and leaves no timer that could fire a second time.
\<close>

theorem debounce:
  assumes "reachable dev s" and "isScanning s" and "codes \<noteq> []"
  shows "(let s1 = onCodeScanned dev dateNow now codes frame s; h = nextHandle s
          in pending s1 = [(h, now + 300)] \<and> timerRef s1 = Some h
           \<and> (\<forall>n. let u = (press_button ^^ n) s1
                 in boxes u = map (map_code dev frame) codes \<and> boxes u \<noteq> []
                  \<and> uniqueCodes u = uniqueCodes s1
                  \<and> (\<forall>h' t. t < now + 300 \<longrightarrow> fire h' t u = None)
                  \<and> (isScanning u \<longrightarrow>
                       (\<forall>dateNow2 t2 codes2 frame2.
                          h \<notin> fst ` set (pending (onCodeScanned dev dateNow2 t2 codes2 frame2 u))
                        \<and> (\<forall>t. fire h t (onCodeScanned dev dateNow2 t2 codes2 frame2 u) = None)
                        \<and> (codes2 \<noteq> [] \<longrightarrow>
                             boxes (onCodeScanned dev dateNow2 t2 codes2 frame2 u) \<noteq> [])))
                  \<and> (\<forall>t \<ge> now + 300.
                        \<exists>s3. fire h t u = Some s3 \<and> boxes s3 = [] \<and> uniqueCodes s3 = []
                           \<and> pending s3 = [] \<and> (\<forall>h' t'. fire h' t' s3 = None))))"
proof -
  define s1 where "s1 = onCodeScanned dev dateNow now codes frame s"
  define h where "h = nextHandle s"
  have inv: "timer_inv s" using assms(1) by (rule reachable_inv)
  have p1: "pending s1 = [(h, now + 300)]" and r1: "timerRef s1 = Some h"
    and n1: "nextHandle s1 = Suc h"
    using frame_pending [OF inv assms(2), of dev dateNow now codes frame] assms(3)
    by (simp_all add: s1_def h_def)
  have b1: "boxes s1 = map (map_code dev frame) codes"
    unfolding s1_def using assms(2,3) by (rule onCodeScanned_boxes)
  have inv1: "timer_inv s1"
    unfolding s1_def using inv by (rule inv_frame)
  have after: "\<forall>n. let u = (press_button ^^ n) s1
        in boxes u = map (map_code dev frame) codes \<and> boxes u \<noteq> []
        \<and> uniqueCodes u = uniqueCodes s1
        \<and> (\<forall>h' t. t < now + 300 \<longrightarrow> fire h' t u = None)
        \<and> (isScanning u \<longrightarrow>
             (\<forall>dateNow2 t2 codes2 frame2.
                h \<notin> fst ` set (pending (onCodeScanned dev dateNow2 t2 codes2 frame2 u))
              \<and> (\<forall>t. fire h t (onCodeScanned dev dateNow2 t2 codes2 frame2 u) = None)
              \<and> (codes2 \<noteq> [] \<longrightarrow>
                   boxes (onCodeScanned dev dateNow2 t2 codes2 frame2 u) \<noteq> [])))
        \<and> (\<forall>t \<ge> now + 300.
              \<exists>s3. fire h t u = Some s3 \<and> boxes s3 = [] \<and> uniqueCodes s3 = []
                 \<and> pending s3 = [] \<and> (\<forall>h' t'. fire h' t' s3 = None))"
  proof
    fix n
    define u where "u = (press_button ^^ n) s1"
    from press_iter [of n s1] obtain b where ub: "u = s1\<lparr>isScanning := b\<rparr>"
      unfolding u_def by auto
    have pu: "pending u = [(h, now + 300)]" and nu: "nextHandle u = Suc h"
      and bu: "boxes u = map (map_code dev frame) codes" and uu: "uniqueCodes u = uniqueCodes s1"
      by (simp_all add: ub p1 n1 b1)
    have invu: "timer_inv u" by (simp add: ub inv_isScanning inv1)
    have ne: "boxes u \<noteq> []" using assms(3) by (simp add: bu)
    have early: "\<forall>h' t. t < now + 300 \<longrightarrow> fire h' t u = None"
      by (simp add: fire_single [OF pu])
    have next_frame: "isScanning u \<longrightarrow>
        (\<forall>dateNow2 t2 codes2 frame2.
           h \<notin> fst ` set (pending (onCodeScanned dev dateNow2 t2 codes2 frame2 u))
         \<and> (\<forall>t. fire h t (onCodeScanned dev dateNow2 t2 codes2 frame2 u) = None)
         \<and> (codes2 \<noteq> [] \<longrightarrow> boxes (onCodeScanned dev dateNow2 t2 codes2 frame2 u) \<noteq> []))"
    proof (intro impI allI conjI)
      fix dateNow2 t2 codes2 frame2
      assume act: "isScanning u"
      show gone: "h \<notin> fst ` set (pending (onCodeScanned dev dateNow2 t2 codes2 frame2 u))"
        using frame_pending(1) [OF invu act, of dev dateNow2 t2 codes2 frame2]
        by (simp add: nu)
      show "fire h t (onCodeScanned dev dateNow2 t2 codes2 frame2 u) = None" for t
        using gone by (rule fire_not_pending)
      show "boxes (onCodeScanned dev dateNow2 t2 codes2 frame2 u) \<noteq> []" if "codes2 \<noteq> []"
        using act that by (simp add: onCodeScanned_boxes)
    qed
    have late: "\<forall>t \<ge> now + 300.
        \<exists>s3. fire h t u = Some s3 \<and> boxes s3 = [] \<and> uniqueCodes s3 = []
           \<and> pending s3 = [] \<and> (\<forall>h' t'. fire h' t' s3 = None)"
    proof (intro allI impI)
      fix t
      assume t: "now + 300 \<le> t"
      let ?s3 = "u\<lparr>pending := [], boxes := [], uniqueCodes := []\<rparr>"
      have "fire h t u = Some ?s3"
        using t by (simp add: fire_single [OF pu])
      moreover have "\<forall>h' t'. fire h' t' ?s3 = None"
        by (simp add: fire_not_pending)
      ultimately show "\<exists>s3. fire h t u = Some s3 \<and> boxes s3 = [] \<and> uniqueCodes s3 = []
           \<and> pending s3 = [] \<and> (\<forall>h' t'. fire h' t' s3 = None)"
        by simp
    qed
    show "let u = (press_button ^^ n) s1
        in boxes u = map (map_code dev frame) codes \<and> boxes u \<noteq> []
        \<and> uniqueCodes u = uniqueCodes s1
        \<and> (\<forall>h' t. t < now + 300 \<longrightarrow> fire h' t u = None)
        \<and> (isScanning u \<longrightarrow>
             (\<forall>dateNow2 t2 codes2 frame2.
                h \<notin> fst ` set (pending (onCodeScanned dev dateNow2 t2 codes2 frame2 u))
              \<and> (\<forall>t. fire h t (onCodeScanned dev dateNow2 t2 codes2 frame2 u) = None)
              \<and> (codes2 \<noteq> [] \<longrightarrow>
                   boxes (onCodeScanned dev dateNow2 t2 codes2 frame2 u) \<noteq> [])))
        \<and> (\<forall>t \<ge> now + 300.
              \<exists>s3. fire h t u = Some s3 \<and> boxes s3 = [] \<and> uniqueCodes s3 = []
                 \<and> pending s3 = [] \<and> (\<forall>h' t'. fire h' t' s3 = None))"
      unfolding Let_def u_def [symmetric]
      by (intro conjI bu ne uu early next_frame late)
  qed
  show ?thesis
    unfolding Let_def s1_def [symmetric] h_def [symmetric]
    by (intro conjI p1 r1 after [unfolded Let_def])
qed

theorem debounce_witness:
  "reachable example_device (press_button initial) \<and> isScanning (press_button initial)
   \<and> [example_code] \<noteq> []
   \<and> pending scanned_state = [(1, 300)]
   \<and> fire 1 299 scanned_state = None
   \<and> fire 1 500 (onCodeScanned example_device example_clock 200 [example_code] example_frame
        scanned_state) = None
   \<and> (\<exists>s3. fire 1 300 scanned_state = Some s3 \<and> boxes s3 = [] \<and> uniqueCodes s3 = []
         \<and> pending s3 = [])"
proof -
  note d = debounce [OF reachable_started started, of "[example_code]" example_device
      example_clock 0 example_frame, unfolded Let_def, folded scanned_state_def,
      unfolded next_started]
  from d have p: "pending scanned_state = [(1, 300)]" by simp
  from d have "\<forall>n. (\<forall>h' t. t < 0 + 300 \<longrightarrow> fire h' t ((press_button ^^ n) scanned_state) = None)
       \<and> (isScanning ((press_button ^^ n) scanned_state) \<longrightarrow>
             (\<forall>dateNow2 t2 codes2 frame2.
                (\<forall>t. fire 1 t (onCodeScanned example_device dateNow2 t2 codes2 frame2
                   ((press_button ^^ n) scanned_state)) = None)))
       \<and> (\<forall>t \<ge> 0 + 300.
              \<exists>s3. fire 1 t ((press_button ^^ n) scanned_state) = Some s3 \<and> boxes s3 = []
                 \<and> uniqueCodes s3 = [] \<and> pending s3 = [])"
    by blast
  from this [rule_format, of 0] have
    early: "\<forall>h' t. t < 0 + 300 \<longrightarrow> fire h' t scanned_state = None"
    and nxt: "isScanning scanned_state \<longrightarrow>
             (\<forall>dateNow2 t2 codes2 frame2.
                (\<forall>t. fire 1 t (onCodeScanned example_device dateNow2 t2 codes2 frame2 scanned_state) = None))"
    and late: "\<forall>t \<ge> 0 + 300. \<exists>s3. fire 1 t scanned_state = Some s3 \<and> boxes s3 = []
                 \<and> uniqueCodes s3 = [] \<and> pending s3 = []"
    by simp_all
  from early have e: "fire 1 299 scanned_state = None" by simp
  from nxt scanned_fields(1)
  have n: "fire 1 500 (onCodeScanned example_device example_clock 200 [example_code] example_frame
        scanned_state) = None" by blast
  from late have l: "\<exists>s3. fire 1 300 scanned_state = Some s3 \<and> boxes s3 = [] \<and> uniqueCodes s3 = []
         \<and> pending s3 = []" by simp
  show ?thesis
    using reachable_started started p e n l by simp
qed

end
